theory Spec2Isabelle
  imports Main "HOL-Library.Word"
begin

section \<open>The thread pool of ThreadPool.h as an interleaving state machine\<close>

text \<open>
  The class \<^verbatim>\<open>threadpool::ThreadPool\<close> is a set of \<^verbatim>\<open>std::jthread\<close> workers, a queue of
  type-erased closures guarded by a mutex, and an atomic counter. The model below keeps
  one record field per data member and gives every thread a control point. A step of the
  machine is one atomic action of one thread: everything a thread does while it holds
  \<^verbatim>\<open>m_mtx\<close> is one step, and so is each access to the atomic \<^verbatim>\<open>m_nActive\<close>. The scheduler
  is the list of events handed to \<open>run\<close>, so a theorem about every event list is a theorem
  about every interleaving.
\<close>

subsection \<open>Callables, closures and the shared state of a future\<close>

text \<open>
  What \<^verbatim>\<open>std::invoke(fn, args...)\<close> can do: return a value of \<^verbatim>\<open>ret_type\<close>, return
  nothing (\<^verbatim>\<open>ret_type\<close> is \<^verbatim>\<open>void\<close>), or leave by an exception.
\<close>

datatype 'r outcome = Returns 'r | ReturnsVoid | Throws

text \<open>
  The shared state behind a \<^verbatim>\<open>std::promise\<close>/\<^verbatim>\<open>std::future\<close> pair. A promise that is
  destroyed before a value was set stores \<^verbatim>\<open>broken_promise\<close> in it.
\<close>

datatype 'r shared_state = Pending | Ready 'r | ReadyVoid | BrokenPromise

datatype future_errc = broken_promise

text \<open>What \<^verbatim>\<open>future::get()\<close> does on a shared state.\<close>

datatype 'r observed = Blocks | Yields 'r | Completes | Raises future_errc

fun future_get :: "'r shared_state \<Rightarrow> 'r observed" where
  "future_get Pending = Blocks"
| "future_get (Ready v) = Yields v"
| "future_get ReadyVoid = Completes"
| "future_get BrokenPromise = Raises broken_promise"

text \<open>
  The lambda that \<^verbatim>\<open>addJob\<close> puts on the queue captures the shared pointer to the
  promise, the callable and its arguments. Shared states live in a store (a list); a
  promise is the index of its shared state there.
\<close>

datatype ('a, 'r) closure =
  Closure (promise: nat) (fn: "'a \<Rightarrow> 'r outcome") (args: 'a)

subsection \<open>Threads and the pool object\<close>

text \<open>
  Control points of the worker lambda (lines 59 to 77):
  \<open>Waiting\<close> is the top of the loop, up to and including \<^verbatim>\<open>m_cv.wait\<close>;
  \<open>Popped c\<close> is after \<^verbatim>\<open>lk.unlock()\<close>, before \<^verbatim>\<open>m_nActive++\<close>;
  \<open>Running c\<close> is after \<^verbatim>\<open>m_nActive++\<close>, inside \<^verbatim>\<open>fn()\<close>;
  \<open>Finished c\<close> is after \<^verbatim>\<open>fn()\<close> returned, before \<^verbatim>\<open>m_nActive--\<close>;
  \<open>Terminated\<close> is after the \<^verbatim>\<open>return\<close>.
\<close>

datatype ('a, 'r) worker =
  Waiting
  | Popped "('a, 'r) closure"
  | Running "('a, 'r) closure"
  | Finished "('a, 'r) closure"
  | Terminated

record ('a, 'r) jthread =
  pc :: "('a, 'r) worker"
  stop_requested :: bool

text \<open>
  The life of the object: \<open>Destructing i\<close> is inside \<^verbatim>\<open>m_threads.clear()\<close> with the
  threads before index \<open>i\<close> already destroyed (stop requested and joined).
\<close>

datatype phase = Alive | Destructing nat | Destroyed

type_synonym size_t = "64 word"

record ('a, 'r) pool =
  m_threads :: "('a, 'r) jthread list"
  m_tasks :: "('a, 'r) closure list"
  m_nActive :: size_t
  shared :: "'r shared_state list"
  phase :: phase
  aborted :: bool

text \<open>
  \<open>shared\<close> is the store of shared states, one per call of \<^verbatim>\<open>addJob\<close>, in the order of
  the calls. \<open>aborted\<close> records that \<^verbatim>\<open>std::terminate\<close> was called: an exception that
  leaves the function of a \<^verbatim>\<open>std::jthread\<close> ends the process.
\<close>

subsection \<open>Constructor and introspection\<close>

text \<open>
  The constructor spawns \<^verbatim>\<open>count\<close> threads, all at the top of the worker loop. The
  counter \<^verbatim>\<open>m_nActive\<close> has no initialiser: the default constructor of
  \<^verbatim>\<open>std::atomic\<close> value-initialises it in C++20, the standard the Makefile sets.
  \<^verbatim>\<open>size_t\<close> is taken as 64 bits wide. The introspection functions return container
  sizes as natural numbers and read the counter as an unsigned number.
\<close>

definition ThreadPool :: "size_t \<Rightarrow> ('a, 'r) pool" where
  "ThreadPool count =
     \<lparr> m_threads = replicate (unat count) \<lparr> pc = Waiting, stop_requested = False \<rparr>,
       m_tasks = [],
       m_nActive = 0,
       shared = [],
       phase = Alive,
       aborted = False \<rparr>"

definition threadCount :: "('a, 'r) pool \<Rightarrow> nat" where
  "threadCount s = length (m_threads s)"

definition activeCount :: "('a, 'r) pool \<Rightarrow> nat" where
  "activeCount s = unat (m_nActive s)"

definition queuedCount :: "('a, 'r) pool \<Rightarrow> nat" where
  "queuedCount s = length (m_tasks s)"

subsection \<open>addJob and clearQueue\<close>

text \<open>
  \<^verbatim>\<open>addJob\<close> allocates the promise, takes its future, and emplaces the closure at the
  back of the queue, all under the lock. The future is returned as the index of the
  shared state.
\<close>

definition addJob ::
  "('a \<Rightarrow> 'r outcome) \<Rightarrow> 'a \<Rightarrow> ('a, 'r) pool \<Rightarrow> nat \<times> ('a, 'r) pool" where
  "addJob f a s =
     (let p = length (shared s) in
      (p, s\<lparr> shared := shared s @ [Pending],
             m_tasks := m_tasks s @ [Closure p f a] \<rparr>))"

text \<open>
  Destroying a closure releases its promise. The queue's copy, and later the worker's
  copy, is the only owner, so the promise dies with it: an unfulfilled one breaks.
\<close>

definition destroy_closure ::
  "('a, 'r) closure \<Rightarrow> 'r shared_state list \<Rightarrow> 'r shared_state list" where
  "destroy_closure c sh =
     (if promise c < length sh \<and> sh ! promise c = Pending
      then sh[promise c := BrokenPromise] else sh)"

definition clearQueue :: "('a, 'r) pool \<Rightarrow> ('a, 'r) pool" where
  "clearQueue s =
     s\<lparr> shared := fold destroy_closure (m_tasks s) (shared s), m_tasks := [] \<rparr>"

subsection \<open>The worker loop\<close>

text \<open>
  The closure body: invoke the callable, then \<^verbatim>\<open>set_value\<close>. There is no handler in
  the closure, so an exception of the callable (or of \<^verbatim>\<open>set_value\<close> on a promise that
  is already satisfied) leaves it: the result is \<open>None\<close>.
\<close>

definition set_value ::
  "nat \<Rightarrow> 'r shared_state \<Rightarrow> 'r shared_state list \<Rightarrow> 'r shared_state list option" where
  "set_value p v sh =
     (if p < length sh \<and> sh ! p = Pending then Some (sh[p := v]) else None)"

definition call_closure ::
  "('a, 'r) closure \<Rightarrow> 'r shared_state list \<Rightarrow> 'r shared_state list option" where
  "call_closure c sh =
     (case fn c (args c) of
        ReturnsVoid \<Rightarrow> set_value (promise c) ReadyVoid sh
      | Returns v \<Rightarrow> set_value (promise c) (Ready v) sh
      | Throws \<Rightarrow> None)"

definition set_pc ::
  "nat \<Rightarrow> ('a, 'r) worker \<Rightarrow> ('a, 'r) jthread list \<Rightarrow> ('a, 'r) jthread list" where
  "set_pc w x ts = ts[w := (ts ! w)\<lparr> pc := x \<rparr>]"

text \<open>
  One atomic action of worker \<open>w\<close>. At \<open>Waiting\<close> the action is the whole critical
  section of lines 61 to 71: \<^verbatim>\<open>m_cv.wait(lk, stok, pred)\<close> returns once the queue is not
  empty or a stop was requested (until then the worker has no step), then the stop check,
  then \<^verbatim>\<open>front\<close> and \<^verbatim>\<open>pop\<close>.
\<close>

definition worker_step :: "nat \<Rightarrow> ('a, 'r) pool \<Rightarrow> ('a, 'r) pool option" where
  "worker_step w s =
     (if length (m_threads s) \<le> w then None
      else case pc (m_threads s ! w) of
        Waiting \<Rightarrow>
          if m_tasks s = [] \<and> \<not> stop_requested (m_threads s ! w) then None
          else if stop_requested (m_threads s ! w) \<and> m_tasks s = []
          then Some (s\<lparr> m_threads := set_pc w Terminated (m_threads s) \<rparr>)
          else (case m_tasks s of
                  [] \<Rightarrow> None
                | c # rest \<Rightarrow>
                    Some (s\<lparr> m_tasks := rest,
                             m_threads := set_pc w (Popped c) (m_threads s) \<rparr>))
      | Popped c \<Rightarrow>
          Some (s\<lparr> m_nActive := m_nActive s + 1,
                   m_threads := set_pc w (Running c) (m_threads s) \<rparr>)
      | Running c \<Rightarrow>
          (case call_closure c (shared s) of
             None \<Rightarrow> Some (s\<lparr> aborted := True \<rparr>)
           | Some sh \<Rightarrow>
               Some (s\<lparr> shared := sh,
                        m_threads := set_pc w (Finished c) (m_threads s) \<rparr>))
      | Finished c \<Rightarrow>
          Some (s\<lparr> m_nActive := m_nActive s - 1,
                   shared := destroy_closure c (shared s),
                   m_threads := set_pc w Waiting (m_threads s) \<rparr>)
      | Terminated \<Rightarrow> None)"

subsection \<open>The destructor\<close>

text \<open>
  \<^verbatim>\<open>m_threads.clear()\<close> destroys the threads one after the other; the destructor of a
  \<^verbatim>\<open>std::jthread\<close> requests a stop and then joins, and the join returns only when the
  thread function has returned. The threads are taken from the first to the last, and the
  vector is empty when \<^verbatim>\<open>clear\<close> returns. After the body the members are destroyed:
  the closures still in \<^verbatim>\<open>m_tasks\<close> go with it. The last step of the destructor below
  is the return of \<^verbatim>\<open>clear\<close> together with the destruction of the members.
\<close>

definition destructor_step :: "('a, 'r) pool \<Rightarrow> ('a, 'r) pool option" where
  "destructor_step s =
     (case phase s of
        Alive \<Rightarrow> Some (s\<lparr> phase := Destructing 0 \<rparr>)
      | Destructing i \<Rightarrow>
          if i < length (m_threads s) then
            if \<not> stop_requested (m_threads s ! i)
            then Some (s\<lparr> m_threads :=
                            (m_threads s)[i := (m_threads s ! i)\<lparr> stop_requested := True \<rparr>] \<rparr>)
            else (case pc (m_threads s ! i) of
                    Terminated \<Rightarrow> Some (s\<lparr> phase := Destructing (Suc i) \<rparr>)
                  | _ \<Rightarrow> None)
          else Some (s\<lparr> m_threads := [],
                        shared := fold destroy_closure (m_tasks s) (shared s),
                        m_tasks := [],
                        phase := Destroyed \<rparr>)
      | Destroyed \<Rightarrow> None)"

subsection \<open>Interleavings\<close>

text \<open>
  \<open>AddJob f a\<close> and \<open>ClearQueue\<close> are calls by any thread (a task body included),
  \<open>Worker w\<close> lets worker \<open>w\<close> take its next action, \<open>Destructor\<close> lets the owner take
  the next action of \<^verbatim>\<open>~ThreadPool\<close>. Nothing happens after \<^verbatim>\<open>std::terminate\<close>, and no
  member function is called on a destroyed object.
\<close>

datatype ('a, 'r) event =
  AddJob "'a \<Rightarrow> 'r outcome" 'a
  | ClearQueue
  | Worker nat
  | Destructor

definition step :: "('a, 'r) pool \<Rightarrow> ('a, 'r) event \<Rightarrow> ('a, 'r) pool option" where
  "step s e =
     (if aborted s \<or> phase s = Destroyed then None
      else case e of
        AddJob f a \<Rightarrow> Some (snd (addJob f a s))
      | ClearQueue \<Rightarrow> Some (clearQueue s)
      | Worker w \<Rightarrow> worker_step w s
      | Destructor \<Rightarrow> destructor_step s)"

fun run :: "('a, 'r) pool \<Rightarrow> ('a, 'r) event list \<Rightarrow> ('a, 'r) pool option" where
  "run s [] = Some s"
| "run s (e # es) = (case step s e of None \<Rightarrow> None | Some s' \<Rightarrow> run s' es)"

subsection \<open>Vocabulary for the properties\<close>

text \<open>The closure a worker holds in its local variable \<^verbatim>\<open>fn\<close>, if any.\<close>

fun held :: "('a, 'r) worker \<Rightarrow> ('a, 'r) closure option" where
  "held (Popped c) = Some c"
| "held (Running c) = Some c"
| "held (Finished c) = Some c"
| "held Waiting = None"
| "held Terminated = None"

text \<open>
  The workers that \<^verbatim>\<open>m_nActive\<close> counts (between the increment and the decrement),
  those that have dequeued a task and not yet incremented, and those whose task has
  returned and that have not yet decremented.
\<close>

fun counted :: "('a, 'r) worker \<Rightarrow> bool" where
  "counted (Running c) = True"
| "counted (Finished c) = True"
| "counted _ = False"

fun is_Popped :: "('a, 'r) worker \<Rightarrow> bool" where
  "is_Popped (Popped c) = True"
| "is_Popped _ = False"

fun is_Running :: "('a, 'r) worker \<Rightarrow> bool" where
  "is_Running (Running c) = True"
| "is_Running _ = False"

fun is_Finished :: "('a, 'r) worker \<Rightarrow> bool" where
  "is_Finished (Finished c) = True"
| "is_Finished _ = False"

definition workers_at :: "(('a, 'r) worker \<Rightarrow> bool) \<Rightarrow> ('a, 'r) pool \<Rightarrow> nat" where
  "workers_at P s = length (filter (\<lambda>t. P (pc t)) (m_threads s))"

text \<open>
  A task is completed when its closure has set the value of its promise. The number of
  tasks submitted is the number of shared states allocated.
\<close>

fun completed :: "'r shared_state \<Rightarrow> bool" where
  "completed (Ready v) = True"
| "completed ReadyVoid = True"
| "completed _ = False"

fun broken :: "'r shared_state \<Rightarrow> bool" where
  "broken BrokenPromise = True"
| "broken _ = False"

fun pending :: "'r shared_state \<Rightarrow> bool" where
  "pending Pending = True"
| "pending _ = False"

definition submittedCount :: "('a, 'r) pool \<Rightarrow> nat" where
  "submittedCount s = length (shared s)"

definition completedCount :: "('a, 'r) pool \<Rightarrow> nat" where
  "completedCount s = length (filter completed (shared s))"

definition discardedCount :: "('a, 'r) pool \<Rightarrow> nat" where
  "discardedCount s = length (filter broken (shared s))"

text \<open>The shared state that the outcome of a callable produces.\<close>

fun fulfils :: "'r outcome \<Rightarrow> 'r shared_state \<Rightarrow> bool" where
  "fulfils (Returns v) (Ready v') = (v = v')"
| "fulfils ReturnsVoid ReadyVoid = True"
| "fulfils _ _ = False"

subsection \<open>Invariants of the reachable states\<close>

text \<open>
  The life cycle: a destroyed pool has no threads and no tasks left; before that the
  vector holds the \<open>n\<close> threads of the constructor; no stop is requested before the
  destructor runs; a thread that has returned had its stop requested; the threads that
  the destructor has passed have returned.
\<close>

definition inv_life :: "nat \<Rightarrow> ('a, 'r) pool \<Rightarrow> bool" where
  "inv_life n s \<longleftrightarrow>
     (phase s = Destroyed \<longrightarrow> m_threads s = [] \<and> m_tasks s = []) \<and>
     (phase s \<noteq> Destroyed \<longrightarrow> length (m_threads s) = n) \<and>
     (phase s = Alive \<longrightarrow>
        (\<forall>w<length (m_threads s). \<not> stop_requested (m_threads s ! w))) \<and>
     (\<forall>w<length (m_threads s).
        pc (m_threads s ! w) = Terminated \<longrightarrow> stop_requested (m_threads s ! w)) \<and>
     (case phase s of
        Destructing i \<Rightarrow>
          (\<forall>w<length (m_threads s). w < i \<longrightarrow> pc (m_threads s ! w) = Terminated)
      | _ \<Rightarrow> True)"

text \<open>
  The queue holds promises in the order of their allocation, all of them allocated.
\<close>

definition inv_queue :: "('a, 'r) pool \<Rightarrow> bool" where
  "inv_queue s \<longleftrightarrow>
     sorted_wrt (<) (map promise (m_tasks s)) \<and>
     (\<forall>c\<in>set (m_tasks s). promise c < length (shared s))"

text \<open>
  A closure held by a worker is no longer in the queue, and no two workers hold the same
  task.
\<close>

definition inv_held :: "('a, 'r) pool \<Rightarrow> bool" where
  "inv_held s \<longleftrightarrow>
     (\<forall>w<length (m_threads s). \<forall>c. held (pc (m_threads s ! w)) = Some c \<longrightarrow>
        promise c < length (shared s) \<and> promise c \<notin> promise ` set (m_tasks s)) \<and>
     (\<forall>w<length (m_threads s). \<forall>v<length (m_threads s). \<forall>c d.
        w \<noteq> v \<longrightarrow> held (pc (m_threads s ! w)) = Some c \<longrightarrow>
        held (pc (m_threads s ! v)) = Some d \<longrightarrow> promise c \<noteq> promise d)"

text \<open>
  A task that is queued or has not yet returned has a pending promise; one that has
  returned has a completed one.
\<close>

definition inv_pending :: "('a, 'r) pool \<Rightarrow> bool" where
  "inv_pending s \<longleftrightarrow>
     (\<forall>c\<in>set (m_tasks s). shared s ! promise c = Pending) \<and>
     (\<forall>w<length (m_threads s). \<forall>c.
        (pc (m_threads s ! w) = Popped c \<or> pc (m_threads s ! w) = Running c \<longrightarrow>
           shared s ! promise c = Pending) \<and>
        (pc (m_threads s ! w) = Finished c \<longrightarrow> completed (shared s ! promise c)))"

definition inv_store :: "('a, 'r) pool \<Rightarrow> bool" where
  "inv_store s \<longleftrightarrow> inv_queue s \<and> inv_held s \<and> inv_pending s"


text \<open>
  A task whose closure was destroyed unrun: its promise is broken, and no closure with
  that promise is queued or held by a worker.
\<close>

definition inv_discarded :: "nat \<Rightarrow> ('a, 'r) pool \<Rightarrow> bool" where
  "inv_discarded h s \<longleftrightarrow>
     h < length (shared s) \<and> shared s ! h = BrokenPromise \<and>
     (\<forall>c\<in>set (m_tasks s). promise c \<noteq> h) \<and>
     (\<forall>w<length (m_threads s). \<forall>c. held (pc (m_threads s ! w)) = Some c \<longrightarrow>
        promise c \<noteq> h)"

text \<open>
  A task on its way through a pool that is being drained: it is queued while some worker
  has not returned yet, or a worker holds it and has not finished it, or it is done.
\<close>

definition inv_drain :: "('a, 'r) closure \<Rightarrow> ('a, 'r) pool \<Rightarrow> bool" where
  "inv_drain c s \<longleftrightarrow>
     promise c < length (shared s) \<and>
     ((c \<in> set (m_tasks s) \<and>
         (\<exists>w<length (m_threads s). pc (m_threads s ! w) \<noteq> Terminated)) \<or>
      (\<exists>w<length (m_threads s).
         pc (m_threads s ! w) = Popped c \<or> pc (m_threads s ! w) = Running c) \<or>
      fulfils (fn c (args c)) (shared s ! promise c))"



text \<open>
  The number of shared states that are still pending, and the events that submit a task.
\<close>

definition pendingCount :: "('a, 'r) pool \<Rightarrow> nat" where
  "pendingCount s = length (filter pending (shared s))"

fun is_AddJob :: "('a, 'r) event \<Rightarrow> bool" where
  "is_AddJob (AddJob f a) = True"
| "is_AddJob _ = False"

fun is_ClearQueue :: "('a, 'r) event \<Rightarrow> bool" where
  "is_ClearQueue ClearQueue = True"
| "is_ClearQueue _ = False"

subsection \<open>Sample callables and executions\<close>

text \<open>
  \<open>myFunc\<close> is the function of that name in ThreadPoolTest.cpp, on mathematical
  integers: it agrees with the C++ function on every \<^verbatim>\<open>int\<close> below \<^verbatim>\<open>INT_MAX\<close>, where
  \<^verbatim>\<open>a + 1\<close> does not overflow (at \<^verbatim>\<open>INT_MAX\<close> the C++ addition is undefined behaviour,
  which nothing here models). It is used at small arguments only. \<open>sleeper\<close> stands for
  the tests' lambdas that return nothing, \<open>thrower\<close> for a callable that throws.
\<close>

definition myFunc :: "int \<Rightarrow> int outcome" where
  "myFunc a = Returns (a + 1)"

definition sleeper :: "int \<Rightarrow> int outcome" where
  "sleeper a = ReturnsVoid"

definition thrower :: "int \<Rightarrow> int outcome" where
  "thrower a = Throws"

definition after :: "size_t \<Rightarrow> (int, int) event list \<Rightarrow> (int, int) pool" where
  "after n evs = the (run (ThreadPool n) evs)"

section \<open>Executions and the case analysis of a step\<close>


lemma run_invariant:
  assumes "run s evs = Some s'" and "P s"
    and "\<And>x e y. P x \<Longrightarrow> step x e = Some y \<Longrightarrow> P y"
  shows "P s'"
  using assms(1,2)
proof (induction evs arbitrary: s)
  case Nil
  then show ?case by simp
next
  case (Cons e es)
  then show ?case by (auto split: option.splits dest: assms(3))
qed

text \<open>The same for an invariant of the steps of some kind of event only.\<close>

lemma run_invariant_on:
  assumes "run s evs = Some s'" and "P s" and "\<forall>e\<in>set evs. K e"
    and "\<And>x e y. K e \<Longrightarrow> P x \<Longrightarrow> step x e = Some y \<Longrightarrow> P y"
  shows "P s'"
  using assms(1,2,3)
proof (induction evs arbitrary: s)
  case Nil
  then show ?case by simp
next
  case (Cons e es)
  from Cons.prems(1) obtain t where t: "step s e = Some t" "run t es = Some s'"
    by (auto split: option.splits)
  from Cons.prems(3) have "K e" by simp
  from assms(4) [OF this Cons.prems(2) t(1)] have "P t" .
  with Cons.IH [OF t(2)] Cons.prems(3) show ?case by simp
qed

lemma step_cases [consumes 1, case_names add clear exit pop incr ran threw decr enter stop join leave]:
  assumes "step s e = Some s'"
  obtains
    f a where "e = AddJob f a"
      "s' = s\<lparr> shared := shared s @ [Pending],
               m_tasks := m_tasks s @ [Closure (length (shared s)) f a] \<rparr>"
  | "e = ClearQueue" "s' = clearQueue s"
  | w where "e = Worker w" "w < length (m_threads s)" "pc (m_threads s ! w) = Waiting"
      "stop_requested (m_threads s ! w)" "m_tasks s = []"
      "s' = s\<lparr> m_threads := set_pc w Terminated (m_threads s) \<rparr>"
  | w c rest where "e = Worker w" "w < length (m_threads s)" "pc (m_threads s ! w) = Waiting"
      "m_tasks s = c # rest"
      "s' = s\<lparr> m_tasks := rest, m_threads := set_pc w (Popped c) (m_threads s) \<rparr>"
  | w c where "e = Worker w" "w < length (m_threads s)" "pc (m_threads s ! w) = Popped c"
      "s' = s\<lparr> m_nActive := m_nActive s + 1, m_threads := set_pc w (Running c) (m_threads s) \<rparr>"
  | w c sh where "e = Worker w" "w < length (m_threads s)" "pc (m_threads s ! w) = Running c"
      "call_closure c (shared s) = Some sh"
      "s' = s\<lparr> shared := sh, m_threads := set_pc w (Finished c) (m_threads s) \<rparr>"
  | w c where "e = Worker w" "w < length (m_threads s)" "pc (m_threads s ! w) = Running c"
      "call_closure c (shared s) = None" "s' = s\<lparr> aborted := True \<rparr>"
  | w c where "e = Worker w" "w < length (m_threads s)" "pc (m_threads s ! w) = Finished c"
      "s' = s\<lparr> m_nActive := m_nActive s - 1, shared := destroy_closure c (shared s),
               m_threads := set_pc w Waiting (m_threads s) \<rparr>"
  | "e = Destructor" "phase s = Alive" "s' = s\<lparr> phase := Destructing 0 \<rparr>"
  | i where "e = Destructor" "phase s = Destructing i" "i < length (m_threads s)"
      "\<not> stop_requested (m_threads s ! i)"
      "s' = s\<lparr> m_threads := (m_threads s)[i := (m_threads s ! i)\<lparr> stop_requested := True \<rparr>] \<rparr>"
  | i where "e = Destructor" "phase s = Destructing i" "i < length (m_threads s)"
      "stop_requested (m_threads s ! i)" "pc (m_threads s ! i) = Terminated"
      "s' = s\<lparr> phase := Destructing (Suc i) \<rparr>"
  | i where "e = Destructor" "phase s = Destructing i" "length (m_threads s) \<le> i"
      "s' = s\<lparr> m_threads := [], shared := fold destroy_closure (m_tasks s) (shared s),
               m_tasks := [], phase := Destroyed \<rparr>"
proof (cases e)
  case (AddJob f a)
  with assms that(1) show ?thesis
    by (auto simp: step_def addJob_def Let_def split: if_splits)
next
  case ClearQueue
  with assms that(2) show ?thesis
    by (auto simp: step_def split: if_splits)
next
  case (Worker w)
  with assms have ws: "worker_step w s = Some s'"
    by (auto simp: step_def split: if_splits)
  then have lt: "w < length (m_threads s)"
    by (auto simp: worker_step_def split: if_splits)
  show ?thesis
  proof (cases "pc (m_threads s ! w)")
    case Waiting
    with ws lt Worker that(3,4) show ?thesis
      by (auto simp: worker_step_def split: if_splits list.splits)
  next
    case (Popped c)
    with ws lt Worker that(5) show ?thesis
      by (auto simp: worker_step_def)
  next
    case (Running c)
    with ws lt Worker that(6,7) show ?thesis
      by (auto simp: worker_step_def split: option.splits)
  next
    case (Finished c)
    with ws lt Worker that(8) show ?thesis
      by (auto simp: worker_step_def)
  next
    case Terminated
    with ws lt show ?thesis
      by (auto simp: worker_step_def)
  qed
next
  case Destructor
  with assms have ds: "destructor_step s = Some s'"
    by (auto simp: step_def split: if_splits)
  show ?thesis
  proof (cases "phase s")
    case Alive
    with ds Destructor that(9) show ?thesis
      by (auto simp: destructor_step_def)
  next
    case (Destructing i)
    with ds Destructor that(10,11,12) show ?thesis
      by (auto simp: destructor_step_def split: if_splits worker.splits)
  next
    case Destroyed
    with ds show ?thesis
      by (auto simp: destructor_step_def)
  qed
qed

lemma step_enabled: "step s e = Some s' \<Longrightarrow> \<not> aborted s \<and> phase s \<noteq> Destroyed"
  by (auto simp: step_def split: if_splits)

text \<open>Evaluation of the thread vector at numerals.\<close>

lemma replicate_numeral_Cons: "replicate (numeral k) x = x # replicate (numeral k - 1) x"
  by (simp add: numeral_eq_Suc)

lemma list_update_Cons_numeral: "(x # xs)[numeral k := v] = x # xs[numeral k - 1 := v]"
  by (simp add: numeral_eq_Suc)

lemmas model_defs = ThreadPool_def step_def addJob_def clearQueue_def worker_step_def
  destructor_step_def set_pc_def call_closure_def set_value_def destroy_closure_def
  after_def myFunc_def sleeper_def thrower_def replicate_numeral_Cons list_update_Cons_numeral

subsection \<open>Promises, the life cycle and the queue\<close>

lemma destroy_closure_length [simp]: "length (destroy_closure c sh) = length sh"
  by (simp add: destroy_closure_def)

lemma destroy_closure_nth:
  "destroy_closure c sh ! i =
     (if i = promise c \<and> i < length sh \<and> sh ! i = Pending then BrokenPromise else sh ! i)"
  by (auto simp: destroy_closure_def nth_list_update)

lemma fold_destroy_length [simp]: "length (fold destroy_closure cs sh) = length sh"
  by (induction cs arbitrary: sh) auto

lemma fold_destroy_nth:
  "fold destroy_closure cs sh ! i =
     (if i \<in> promise ` set cs \<and> i < length sh \<and> sh ! i = Pending
      then BrokenPromise else sh ! i)"
proof (induction cs arbitrary: sh)
  case Nil
  then show ?case by simp
next
  case (Cons c cs)
  show ?case
    by (auto simp: Cons.IH destroy_closure_nth)
qed

lemma set_value_Some:
  "set_value p v sh = Some sh' \<Longrightarrow> p < length sh \<and> sh ! p = Pending \<and> sh' = sh[p := v]"
  by (auto simp: set_value_def split: if_splits)

lemma call_closure_Some:
  assumes "call_closure c sh = Some sh'"
  shows "promise c < length sh \<and> sh ! promise c = Pending
         \<and> (\<exists>x. sh' = sh[promise c := x] \<and> completed x \<and> fulfils (fn c (args c)) x)"
  using assms
  by (auto simp: call_closure_def split: outcome.splits dest!: set_value_Some)

lemma ThreadPool_life: "inv_life (unat n) (ThreadPool n)"
  by (simp add: inv_life_def ThreadPool_def)

lemma inv_life_step:
  assumes "step s e = Some s'" and "inv_life n s"
  shows "inv_life n s'"
  using assms(1) assms(2) step_enabled [OF assms(1)]
proof (cases rule: step_cases)
  case (join i)
  with assms(2) show ?thesis
    by (auto simp: inv_life_def less_Suc_eq)
qed (auto simp: inv_life_def clearQueue_def set_pc_def nth_list_update split: phase.splits)

lemma reachable_life:
  "run (ThreadPool n) evs = Some s \<Longrightarrow> inv_life (unat n) s"
  by (erule run_invariant [where P = "inv_life (unat n)"])
     (auto intro: ThreadPool_life inv_life_step)

lemma shared_length_mono:
  assumes "step s e = Some s'"
  shows "length (shared s) \<le> length (shared s')"
  using assms
  by (cases rule: step_cases) (auto simp: clearQueue_def dest!: call_closure_Some)

lemma inv_queue_step:
  assumes "step s e = Some s'" and "inv_queue s"
  shows "inv_queue s'"
  using assms
  by (cases rule: step_cases)
     (auto simp: inv_queue_def clearQueue_def sorted_wrt_append dest!: call_closure_Some)

lemma inv_held_step:
  assumes "step s e = Some s'" and "inv_queue s" and "inv_held s"
  shows "inv_held s'"
  using assms
proof (cases rule: step_cases)
  case (add f a)
  with assms(2,3) show ?thesis
    by (fastforce simp: inv_held_def inv_queue_def)
next
  case (pop w c rest)
  with assms(2,3) show ?thesis
    apply (simp add: inv_held_def inv_queue_def set_pc_def nth_list_update)
    apply (intro conjI allI impI)
    apply auto
    done
qed (auto simp: inv_held_def inv_queue_def clearQueue_def set_pc_def nth_list_update
          dest!: call_closure_Some split: if_splits)

lemma inv_pending_step:
  assumes "step s e = Some s'" and "inv_queue s" and "inv_held s" and "inv_pending s"
  shows "inv_pending s'"
  using assms
proof (cases rule: step_cases)
  case (add f a)
  with assms(2,3,4) show ?thesis
    by (auto simp: inv_pending_def inv_queue_def inv_held_def nth_append)
next
  case clear
  with assms(2,3,4) show ?thesis
    by (auto simp: inv_pending_def inv_held_def clearQueue_def fold_destroy_nth)
next
  case (ran w c sh)
  from ran(4) obtain x where x: "promise c < length (shared s)" "sh = (shared s)[promise c := x]"
    "completed x"
    by (auto dest!: call_closure_Some)
  from ran(2,3) have hc: "held (pc (m_threads s ! w)) = Some c" by simp
  have q: "\<forall>d\<in>set (m_tasks s). promise d \<noteq> promise c"
    using assms(3) ran(2) hc unfolding inv_held_def by (metis imageI)
  have o: "\<forall>v<length (m_threads s). \<forall>d. v \<noteq> w \<longrightarrow> held (pc (m_threads s ! v)) = Some d
             \<longrightarrow> promise d \<noteq> promise c"
    using assms(3) ran(2) hc unfolding inv_held_def by blast
  show ?thesis
    unfolding inv_pending_def
  proof (intro conjI ballI allI impI)
    fix d assume "d \<in> set (m_tasks s')"
    with ran x q assms(4) show "shared s' ! promise d = Pending"
      by (auto simp: inv_pending_def nth_list_update)
  next
    fix v d
    assume v: "v < length (m_threads s')"
      and p: "pc (m_threads s' ! v) = Popped d \<or> pc (m_threads s' ! v) = Running d"
    from v p ran have "v \<noteq> w" by (auto simp: set_pc_def)
    with v p ran o have "promise d \<noteq> promise c"
      by (auto simp: set_pc_def)
    with v p ran assms(4) \<open>v \<noteq> w\<close> x show "shared s' ! promise d = Pending"
      by (auto simp: inv_pending_def set_pc_def nth_list_update)
  next
    fix v d
    assume v: "v < length (m_threads s')" and p: "pc (m_threads s' ! v) = Finished d"
    show "completed (shared s' ! promise d)"
    proof (cases "v = w")
      case True
      with v p ran x show ?thesis by (auto simp: set_pc_def)
    next
      case False
      with v p ran o have "promise d \<noteq> promise c" by (auto simp: set_pc_def)
      with v p ran assms(4) False x show ?thesis
        by (auto simp: inv_pending_def set_pc_def nth_list_update)
    qed
  qed
next
  case (decr w c)
  with assms(4) have "completed (shared s ! promise c)"
    by (auto simp: inv_pending_def)
  then have "destroy_closure c (shared s) = shared s"
    by (auto simp: destroy_closure_def)
  with decr assms(4) show ?thesis
    by (auto simp: inv_pending_def set_pc_def nth_list_update)
next
  case (leave i)
  then show ?thesis by (simp add: inv_pending_def)
qed (auto simp: inv_pending_def set_pc_def nth_list_update split: if_splits)

lemma ThreadPool_store: "inv_store (ThreadPool n)"
  by (simp add: inv_store_def inv_queue_def inv_held_def inv_pending_def ThreadPool_def)

lemma inv_store_step:
  "step s e = Some s' \<Longrightarrow> inv_store s \<Longrightarrow> inv_store s'"
  unfolding inv_store_def
  using inv_queue_step inv_held_step inv_pending_step by blast

lemma reachable_store:
  "run (ThreadPool n) evs = Some s \<Longrightarrow> inv_store s"
  by (erule run_invariant [where P = inv_store])
     (auto intro: ThreadPool_store inv_store_step)

text \<open>A shared state that is no longer pending never changes again.\<close>

lemma step_settled:
  assumes "step s e = Some s'" and "i < length (shared s)" and "shared s ! i \<noteq> Pending"
  shows "shared s' ! i = shared s ! i"
  using assms
  by (cases rule: step_cases)
     (auto simp: clearQueue_def fold_destroy_nth destroy_closure_nth nth_append nth_list_update
           dest!: call_closure_Some)

subsection \<open>Counting threads and shared states\<close>

lemma filter_update_count:
  "i < length xs \<Longrightarrow>
   length (filter Q (xs[i := v])) + (if Q (xs ! i) then 1 else 0)
     = length (filter Q xs) + (if Q v then 1 else 0)"
proof (induction xs arbitrary: i)
  case Nil
  then show ?case by simp
next
  case (Cons x xs)
  then show ?case by (cases i) auto
qed

lemma workers_at_set_pc:
  "w < length (m_threads s) \<Longrightarrow>
   workers_at P (s\<lparr> m_threads := set_pc w x (m_threads s) \<rparr>)
     + (if P (pc (m_threads s ! w)) then 1 else 0)
     = workers_at P s + (if P x then 1 else 0)"
  using filter_update_count [of w "m_threads s" "\<lambda>t. P (pc t)" "(m_threads s ! w)\<lparr> pc := x \<rparr>"]
  by (simp add: workers_at_def set_pc_def)

lemma workers_at_stop:
  "i < length ts \<Longrightarrow>
   length (filter (\<lambda>t. P (pc t)) (ts[i := (ts ! i)\<lparr> stop_requested := True \<rparr>]))
     = length (filter (\<lambda>t. P (pc t)) ts)"
  using filter_update_count [of i ts "\<lambda>t. P (pc t)" "(ts ! i)\<lparr> stop_requested := True \<rparr>"]
  by simp

lemma workers_at_le: "workers_at P s \<le> length (m_threads s)"
  by (simp add: workers_at_def)

lemma counted_split:
  "workers_at counted s = workers_at is_Running s + workers_at is_Finished s"
proof -
  have "length (filter (\<lambda>t. counted (pc t)) ts)
        = length (filter (\<lambda>t. is_Running (pc t)) ts) + length (filter (\<lambda>t. is_Finished (pc t)) ts)"
    for ts :: "('a, 'b) jthread list"
  proof (induction ts)
    case Nil
    then show ?case by simp
  next
    case (Cons t ts)
    then show ?case by (cases "pc t") auto
  qed
  then show ?thesis by (simp add: workers_at_def)
qed

text \<open>The atomic counter is the number of workers between increment and decrement.\<close>

lemma nActive_step:
  assumes "step s e = Some s'" and "m_nActive s = of_nat (workers_at counted s)"
    and "phase s' \<noteq> Destroyed"
  shows "m_nActive s' = of_nat (workers_at counted s')"
  using assms
proof (cases rule: step_cases)
  case (exit w)
  with assms(2) workers_at_set_pc [of w s counted Terminated] show ?thesis by simp
next
  case (pop w c rest)
  with assms(2) workers_at_set_pc [of w s counted "Popped c"] show ?thesis
    by (simp add: workers_at_def)
next
  case (incr w c)
  with assms(2) workers_at_set_pc [of w s counted "Running c"] show ?thesis
    by (simp add: workers_at_def)
next
  case (ran w c sh)
  with assms(2) workers_at_set_pc [of w s counted "Finished c"] show ?thesis
    by (simp add: workers_at_def)
next
  case (decr w c)
  with workers_at_set_pc [of w s counted Waiting]
  have "workers_at counted s = workers_at counted s' + 1" by (simp add: workers_at_def)
  with assms(2) have "m_nActive s = of_nat (workers_at counted s') + 1" by simp
  moreover from decr have "m_nActive s' = m_nActive s - 1" by simp
  ultimately show ?thesis by simp
next
  case (stop i)
  with assms(2) workers_at_stop [of i "m_threads s" counted] show ?thesis
    by (simp add: workers_at_def)
qed (auto simp: workers_at_def clearQueue_def)

lemma nActive_run:
  assumes "run (ThreadPool n) evs = Some s" and "phase s \<noteq> Destroyed"
  shows "m_nActive s = of_nat (workers_at counted s)"
proof -
  have "phase s \<noteq> Destroyed \<longrightarrow> m_nActive s = of_nat (workers_at counted s)"
  proof (rule run_invariant [OF assms(1),
        where P = "\<lambda>s. phase s \<noteq> Destroyed \<longrightarrow> m_nActive s = of_nat (workers_at counted s)"])
    show "phase (ThreadPool n) \<noteq> Destroyed
          \<longrightarrow> m_nActive (ThreadPool n) = of_nat (workers_at counted (ThreadPool n))"
      by (simp add: ThreadPool_def workers_at_def)
  next
    fix x e y
    assume "phase x \<noteq> Destroyed \<longrightarrow> m_nActive x = of_nat (workers_at counted x)"
      and "step x e = Some y"
    then show "phase y \<noteq> Destroyed \<longrightarrow> m_nActive y = of_nat (workers_at counted y)"
      using nActive_step [of x e y] step_enabled [of x e y] by auto
  qed
  with assms(2) show ?thesis by simp
qed

lemma activeCount_run:
  assumes "run (ThreadPool n) evs = Some s" and "phase s \<noteq> Destroyed"
  shows "activeCount s = workers_at counted s"
proof -
  from reachable_life [OF assms(1)] assms(2) have "length (m_threads s) = unat n"
    by (simp add: inv_life_def)
  with workers_at_le [of counted s] have "workers_at counted s \<le> unat n" by simp
  also have "unat n < 2 ^ LENGTH(64)" by (rule unsigned_less)
  finally have "unat (of_nat (workers_at counted s) :: 64 word) = workers_at counted s"
    by (simp add: unat_of_nat)
  with nActive_run [OF assms] show ?thesis by (simp add: activeCount_def)
qed

lemma shared_partition:
  "length sh = length (filter pending sh) + length (filter completed sh)
               + length (filter broken sh)"
proof (induction sh)
  case Nil
  then show ?case by simp
next
  case (Cons x sh)
  then show ?case by (cases x) auto
qed

lemma sorted_less_distinct: "sorted_wrt (<) (xs :: nat list) \<Longrightarrow> distinct xs"
  by (induction xs) auto

lemma fold_destroy_pending:
  assumes "distinct (map promise cs)"
    and "\<forall>c\<in>set cs. promise c < length sh \<and> sh ! promise c = Pending"
  shows "length (filter pending (fold destroy_closure cs sh)) + length cs
         = length (filter pending sh)"
  using assms
proof (induction cs arbitrary: sh)
  case Nil
  then show ?case by simp
next
  case (Cons c cs)
  from Cons.prems(2) have c: "promise c < length sh" "sh ! promise c = Pending" by simp_all
  then have d: "destroy_closure c sh = sh[promise c := BrokenPromise]"
    by (simp add: destroy_closure_def)
  from c filter_update_count [of "promise c" sh pending BrokenPromise]
  have n: "length (filter pending (sh[promise c := BrokenPromise])) + 1
           = length (filter pending sh)"
    by simp
  have "\<forall>x\<in>set cs. promise x < length (sh[promise c := BrokenPromise])
          \<and> sh[promise c := BrokenPromise] ! promise x = Pending"
    using Cons.prems by (auto simp: nth_list_update)
  with Cons.IH [of "sh[promise c := BrokenPromise]"] Cons.prems(1)
  have "length (filter pending (fold destroy_closure cs (sh[promise c := BrokenPromise])))
          + length cs = length (filter pending (sh[promise c := BrokenPromise]))"
    by simp
  with n d show ?case by simp
qed

text \<open>
  The pending shared states are those of the queued tasks and of the tasks that a worker
  has dequeued and not finished.
\<close>

lemma pending_step:
  assumes "step s e = Some s'" and "inv_store s"
    and "pendingCount s = queuedCount s + workers_at is_Popped s + workers_at is_Running s"
    and "phase s' \<noteq> Destroyed"
  shows "pendingCount s' = queuedCount s' + workers_at is_Popped s' + workers_at is_Running s'"
  using assms(1)
proof (cases rule: step_cases)
  case (add f a)
  with assms(3) show ?thesis
    by (simp add: pendingCount_def queuedCount_def workers_at_def)
next
  case clear
  from assms(2) have "distinct (map promise (m_tasks s))"
    and "\<forall>c\<in>set (m_tasks s). promise c < length (shared s) \<and> shared s ! promise c = Pending"
    by (auto simp: inv_store_def inv_queue_def inv_pending_def intro: sorted_less_distinct)
  from fold_destroy_pending [OF this] clear assms(3) show ?thesis
    by (simp add: pendingCount_def queuedCount_def workers_at_def clearQueue_def)
next
  case (exit w)
  with assms(3) workers_at_set_pc [of w s is_Popped Terminated]
    workers_at_set_pc [of w s is_Running Terminated]
  show ?thesis
    by (simp add: pendingCount_def queuedCount_def)
next
  case (pop w c rest)
  with assms(3) workers_at_set_pc [of w s is_Popped "Popped c"]
    workers_at_set_pc [of w s is_Running "Popped c"]
  show ?thesis
    by (simp add: pendingCount_def queuedCount_def workers_at_def)
next
  case (incr w c)
  with assms(3) workers_at_set_pc [of w s is_Popped "Running c"]
    workers_at_set_pc [of w s is_Running "Running c"]
  show ?thesis
    by (simp add: pendingCount_def queuedCount_def workers_at_def)
next
  case (ran w c sh)
  from ran(4) obtain x where x: "promise c < length (shared s)" "shared s ! promise c = Pending"
    "sh = (shared s)[promise c := x]" "completed x"
    by (auto dest!: call_closure_Some)
  from x(4) have "\<not> pending x" by (cases x) auto
  with x filter_update_count [of "promise c" "shared s" pending x]
  have "length (filter pending sh) + 1 = length (filter pending (shared s))" by simp
  with ran assms(3) workers_at_set_pc [of w s is_Popped "Finished c"]
    workers_at_set_pc [of w s is_Running "Finished c"]
  show ?thesis
    by (simp add: pendingCount_def queuedCount_def workers_at_def)
next
  case (threw w c)
  with assms(3) show ?thesis
    by (simp add: pendingCount_def queuedCount_def workers_at_def)
next
  case (decr w c)
  with assms(2) have "completed (shared s ! promise c)"
    by (auto simp: inv_store_def inv_pending_def)
  then have "destroy_closure c (shared s) = shared s"
    by (auto simp: destroy_closure_def)
  with decr assms(3) workers_at_set_pc [of w s is_Popped Waiting]
    workers_at_set_pc [of w s is_Running Waiting]
  show ?thesis
    by (simp add: pendingCount_def queuedCount_def workers_at_def)
next
  case enter
  with assms(3) show ?thesis
    by (simp add: pendingCount_def queuedCount_def workers_at_def)
next
  case (stop i)
  with assms(3) workers_at_stop [of i "m_threads s" is_Popped]
    workers_at_stop [of i "m_threads s" is_Running]
  show ?thesis
    by (simp add: pendingCount_def queuedCount_def workers_at_def)
next
  case (join i)
  with assms(3) show ?thesis
    by (simp add: pendingCount_def queuedCount_def workers_at_def)
next
  case (leave i)
  with assms(4) show ?thesis by simp
qed

lemma pending_run:
  assumes "run (ThreadPool n) evs = Some s" and "phase s \<noteq> Destroyed"
  shows "pendingCount s = queuedCount s + workers_at is_Popped s + workers_at is_Running s"
proof -
  let ?P = "\<lambda>s :: ('a, 'b) pool. inv_store s \<and> (phase s \<noteq> Destroyed \<longrightarrow>
     pendingCount s = queuedCount s + workers_at is_Popped s + workers_at is_Running s)"
  have "?P s"
  proof (rule run_invariant [OF assms(1), where P = ?P])
    show "?P (ThreadPool n)"
      by (simp add: ThreadPool_store)
         (simp add: ThreadPool_def pendingCount_def queuedCount_def workers_at_def)
  next
    fix x y :: "('a, 'b) pool" and e
    assume "?P x" and "step x e = Some y"
    then show "?P y"
      using pending_step [of x e y] inv_store_step [of x e y] step_enabled [of x e y]
      by auto
  qed
  with assms(2) show ?thesis by simp
qed

subsection \<open>The task behind a future\<close>




subsection \<open>Discarded tasks\<close>

lemma inv_discarded_step:
  assumes "step s e = Some s'" and "inv_discarded h s"
  shows "inv_discarded h s'"
proof -
  from assms(2) have h: "h < length (shared s)" "shared s ! h \<noteq> Pending"
    by (simp_all add: inv_discarded_def)
  from step_settled [OF assms(1) h] shared_length_mono [OF assms(1)] assms(2)
  have sh: "h < length (shared s')" "shared s' ! h = BrokenPromise"
    by (simp_all add: inv_discarded_def)
  from assms have "(\<forall>c\<in>set (m_tasks s'). promise c \<noteq> h) \<and>
     (\<forall>w<length (m_threads s'). \<forall>c. held (pc (m_threads s' ! w)) = Some c \<longrightarrow>
        promise c \<noteq> h)"
    by (cases rule: step_cases)
       (auto simp: inv_discarded_def clearQueue_def set_pc_def nth_list_update
             split: if_splits)
  with sh show ?thesis by (simp add: inv_discarded_def)
qed

lemma inv_discarded_run:
  "run s evs = Some s' \<Longrightarrow> inv_discarded h s \<Longrightarrow> inv_discarded h s'"
  by (erule run_invariant [where P = "inv_discarded h"])
     (auto intro: inv_discarded_step)

text \<open>Emptying the queue, by \<^verbatim>\<open>clearQueue\<close> or with the object, discards what was queued.\<close>

lemma drop_queue_discards:
  assumes "inv_store s" and "c \<in> set (m_tasks s)"
    and "m_tasks s' = []" and "m_threads s' = m_threads s \<or> m_threads s' = []"
    and "shared s' = fold destroy_closure (m_tasks s) (shared s)"
  shows "inv_discarded (promise c) s'"
proof -
  from assms(1,2) have "promise c < length (shared s)" "shared s ! promise c = Pending"
    by (auto simp: inv_store_def inv_queue_def inv_pending_def)
  with assms(2,5) have "promise c < length (shared s')"
    "shared s' ! promise c = BrokenPromise"
    by (auto simp: fold_destroy_nth)
  moreover from assms(1,2) have "\<forall>w<length (m_threads s). \<forall>d.
      held (pc (m_threads s ! w)) = Some d \<longrightarrow> promise d \<noteq> promise c"
    unfolding inv_store_def inv_held_def by (metis imageI)
  ultimately show ?thesis
    using assms(3,4) by (auto simp: inv_discarded_def)
qed

subsection \<open>Draining\<close>

lemma set_pc_nth:
  "v < length ts \<Longrightarrow> pc (set_pc w x ts ! v) = (if v = w then x else pc (ts ! v))"
  by (simp add: set_pc_def nth_list_update)

lemma set_pc_length [simp]: "length (set_pc w x ts) = length ts"
  by (simp add: set_pc_def)

lemma inv_drain_step:
  assumes "step s e = Some s'" and "\<not> is_ClearQueue e"
    and "inv_life n s" and "inv_drain c s"
  shows "inv_drain c s'"
proof -
  from assms(4) have lt: "promise c < length (shared s)" by (simp add: inv_drain_def)
  with shared_length_mono [OF assms(1)] have lt': "promise c < length (shared s')" by simp
  from assms(4) consider
    (queued) v where "c \<in> set (m_tasks s)" "v < length (m_threads s)"
      "pc (m_threads s ! v) \<noteq> Terminated"
    | (held) v where "v < length (m_threads s)"
      "pc (m_threads s ! v) = Popped c \<or> pc (m_threads s ! v) = Running c"
    | (fulfilled) "fulfils (fn c (args c)) (shared s ! promise c)"
    by (auto simp: inv_drain_def)
  then show ?thesis
  proof cases
    case fulfilled
    then have "shared s ! promise c \<noteq> Pending"
      by (cases "fn c (args c)") auto
    from step_settled [OF assms(1) lt this] fulfilled lt' show ?thesis
      by (simp add: inv_drain_def)
  next
    case (held v)
    from assms(1) show ?thesis
    proof (cases rule: step_cases)
      case (add f a)
      with held lt' show ?thesis by (auto simp: inv_drain_def)
    next
      case clear
      with assms(2) show ?thesis by simp
    next
      case (exit w)
      with held have "v \<noteq> w" by auto
      with exit held lt' show ?thesis
        by (auto simp: inv_drain_def set_pc_nth)
    next
      case (pop w d rest)
      with held have "v \<noteq> w" by auto
      with pop held lt' show ?thesis
        by (auto simp: inv_drain_def set_pc_nth)
    next
      case (incr w d)
      with held lt' have "\<exists>u<length (m_threads s').
          pc (m_threads s' ! u) = Popped c \<or> pc (m_threads s' ! u) = Running c"
        by (intro exI [of _ v]) (auto simp: set_pc_nth)
      with lt' show ?thesis by (simp add: inv_drain_def)
    next
      case (ran w d sh)
      show ?thesis
      proof (cases "v = w")
        case True
        with ran held have "d = c" by auto
        with ran(4) have "fulfils (fn c (args c)) (sh ! promise c)"
          by (auto dest!: call_closure_Some)
        with ran lt' show ?thesis by (simp add: inv_drain_def)
      next
        case False
        with ran held lt' have "\<exists>u<length (m_threads s').
            pc (m_threads s' ! u) = Popped c \<or> pc (m_threads s' ! u) = Running c"
          by (intro exI [of _ v]) (auto simp: set_pc_nth)
        with lt' show ?thesis by (simp add: inv_drain_def)
      qed
    next
      case (threw w d)
      with held lt' show ?thesis by (auto simp: inv_drain_def)
    next
      case (decr w d)
      with held have "v \<noteq> w" by auto
      with decr held lt' have "\<exists>u<length (m_threads s').
          pc (m_threads s' ! u) = Popped c \<or> pc (m_threads s' ! u) = Running c"
        by (intro exI [of _ v]) (auto simp: set_pc_nth)
      with lt' show ?thesis by (simp add: inv_drain_def)
    next
      case enter
      with held lt' show ?thesis by (auto simp: inv_drain_def)
    next
      case (stop i)
      with held lt' have "\<exists>u<length (m_threads s').
          pc (m_threads s' ! u) = Popped c \<or> pc (m_threads s' ! u) = Running c"
        by (intro exI [of _ v]) (auto simp: nth_list_update)
      with lt' show ?thesis by (simp add: inv_drain_def)
    next
      case (join i)
      with held lt' show ?thesis by (auto simp: inv_drain_def)
    next
      case (leave i)
      with assms(3) held show ?thesis by (auto simp: inv_life_def)
    qed
  next
    case (queued v)
    from assms(1) show ?thesis
    proof (cases rule: step_cases)
      case (add f a)
      with queued lt' show ?thesis by (auto simp: inv_drain_def)
    next
      case clear
      with assms(2) show ?thesis by simp
    next
      case (exit w)
      with queued show ?thesis by simp
    next
      case (pop w d rest)
      have "pc (m_threads s' ! w) = Popped d" "w < length (m_threads s')"
        using pop by (simp_all add: set_pc_nth)
      moreover from pop queued have "d = c \<or> c \<in> set (m_tasks s')" by auto
      moreover have "Popped d \<noteq> Terminated" by simp
      ultimately show ?thesis
        using lt' unfolding inv_drain_def by metis
    next
      case (incr w d)
      with queued have "v < length (m_threads s')" "pc (m_threads s' ! v) \<noteq> Terminated"
        "c \<in> set (m_tasks s')"
        by (auto simp: set_pc_nth)
      with lt' show ?thesis unfolding inv_drain_def by blast
    next
      case (ran w d sh)
      with queued have "v < length (m_threads s')" "pc (m_threads s' ! v) \<noteq> Terminated"
        "c \<in> set (m_tasks s')"
        by (auto simp: set_pc_nth)
      with lt' show ?thesis unfolding inv_drain_def by blast
    next
      case (threw w d)
      with queued lt' show ?thesis by (auto simp: inv_drain_def)
    next
      case (decr w d)
      with queued have "v < length (m_threads s')" "pc (m_threads s' ! v) \<noteq> Terminated"
        "c \<in> set (m_tasks s')"
        by (auto simp: set_pc_nth)
      with lt' show ?thesis unfolding inv_drain_def by blast
    next
      case enter
      with queued lt' show ?thesis by (auto simp: inv_drain_def)
    next
      case (stop i)
      with queued have "v < length (m_threads s')" "pc (m_threads s' ! v) \<noteq> Terminated"
        "c \<in> set (m_tasks s')"
        by (auto simp: nth_list_update)
      with lt' show ?thesis unfolding inv_drain_def by blast
    next
      case (join i)
      with queued lt' show ?thesis by (auto simp: inv_drain_def)
    next
      case (leave i)
      with assms(3) queued show ?thesis by (auto simp: inv_life_def)
    qed
  qed
qed

subsection \<open>A worker and the tasks it takes\<close>



section \<open>The stop check of the worker loop\<close>



section \<open>First in, first out\<close>

text \<open>
  Claim C4. Tasks are dequeued in the order they were enqueued. The promise of a task is
  the number of the \<^verbatim>\<open>addJob\<close> call that enqueued it: a new task gets a promise above
  every queued one. For two queued tasks \<open>A\<close> enqueued before \<open>B\<close>, no step of a worker
  takes \<open>B\<close>: after the step \<open>B\<close> is still queued and the worker does not hold it.
\<close>

theorem dequeue_in_enqueue_order:
  assumes "run (ThreadPool n) evs = Some s"
  shows "(\<forall>d\<in>set (m_tasks s). promise d < fst (addJob f a s)) \<and>
         (\<forall>A\<in>set (m_tasks s). \<forall>B\<in>set (m_tasks s).
            promise A < promise B \<longrightarrow> step s (Worker w) = Some s' \<longrightarrow>
            B \<in> set (m_tasks s') \<and> held (pc (m_threads s' ! w)) \<noteq> Some B)"
proof (intro conjI ballI impI)
  from reachable_store [OF assms] have q: "inv_queue s" and h: "inv_held s"
    by (simp_all add: inv_store_def)
  {
    fix d assume "d \<in> set (m_tasks s)"
    with q show "promise d < fst (addJob f a s)"
      by (simp add: inv_queue_def addJob_def Let_def)
  }
  fix A B
  assume A: "A \<in> set (m_tasks s)" and B: "B \<in> set (m_tasks s)"
    and lt: "promise A < promise B" and st: "step s (Worker w) = Some s'"
  have nh: "\<And>c. w < length (m_threads s) \<Longrightarrow> held (pc (m_threads s ! w)) = Some c \<Longrightarrow> c \<noteq> B"
    using h B unfolding inv_held_def by (metis imageI)
  from st show "B \<in> set (m_tasks s')"
  proof (cases rule: step_cases)
    case (pop w' c rest)
    with q A B lt show ?thesis
      by (auto simp: inv_queue_def)
  qed (use A B in auto)
  from st show "held (pc (m_threads s' ! w)) \<noteq> Some B"
  proof (cases rule: step_cases)
    case (pop w' c rest)
    with q A B lt show ?thesis
      by (auto simp: inv_queue_def set_pc_def)
  next
    case (incr w' c)
    with nh [of c] show ?thesis by (auto simp: set_pc_def)
  next
    case (ran w' c sh)
    with nh [of c] show ?thesis by (auto simp: set_pc_def)
  next
    case (threw w' c)
    with nh [of c] show ?thesis by (auto simp: set_pc_def)
  qed (use A B in \<open>auto simp: set_pc_def\<close>)
qed

text \<open>
  One worker and two submissions of \<open>myFunc\<close>: the worker's step takes the first and
  leaves the second queued.
\<close>

theorem dequeue_in_enqueue_order_witness:
  "run (ThreadPool 1) [AddJob myFunc 1, AddJob myFunc 2]
     = Some (after 1 [AddJob myFunc 1, AddJob myFunc 2])
   \<and> m_tasks (after 1 [AddJob myFunc 1, AddJob myFunc 2])
     = [Closure 0 myFunc 1, Closure 1 myFunc 2]
   \<and> step (after 1 [AddJob myFunc 1, AddJob myFunc 2]) (Worker 0)
     = Some (after 1 [AddJob myFunc 1, AddJob myFunc 2, Worker 0])
   \<and> fst (addJob myFunc 3 (after 1 [AddJob myFunc 1, AddJob myFunc 2])) = 2
   \<and> Closure 1 myFunc 2 \<in> set (m_tasks (after 1 [AddJob myFunc 1, AddJob myFunc 2, Worker 0]))
   \<and> held (pc (m_threads (after 1 [AddJob myFunc 1, AddJob myFunc 2, Worker 0]) ! 0))
     \<noteq> Some (Closure 1 myFunc 2)"
  using dequeue_in_enqueue_order
          [of 1 "[AddJob myFunc 1, AddJob myFunc 2]"
              "after 1 [AddJob myFunc 1, AddJob myFunc 2]" myFunc 3 0
              "after 1 [AddJob myFunc 1, AddJob myFunc 2, Worker 0]"]
  by (simp add: model_defs)

section \<open>Introspection\<close>

text \<open>
  Claim C9. A freshly constructed pool with worker count \<open>n\<close> reports
  \<open>threadCount() = n\<close>, \<open>activeCount() = 0\<close> and \<open>queuedCount() = 0\<close> before any
  submission: in the state the constructor returns (the empty event list) and for as long
  as no \<^verbatim>\<open>addJob\<close> has been called and the object exists.
\<close>

theorem fresh_pool_counts:
  assumes "run (ThreadPool n) evs = Some s" and "\<forall>e\<in>set evs. \<not> is_AddJob e"
    and "phase s \<noteq> Destroyed"
  shows "threadCount s = unat n \<and> activeCount s = 0 \<and> queuedCount s = 0"
proof -
  let ?P = "\<lambda>s :: ('a, 'b) pool. m_tasks s = [] \<and> m_nActive s = 0
              \<and> (\<forall>w<length (m_threads s). held (pc (m_threads s ! w)) = None)"
  have "?P s"
  proof (rule run_invariant_on [OF assms(1), where P = ?P and K = "\<lambda>e. \<not> is_AddJob e"])
    show "?P (ThreadPool n)" by (simp add: ThreadPool_def)
  next
    show "\<forall>e\<in>set evs. \<not> is_AddJob e" by (rule assms(2))
  next
    fix x y :: "('a, 'b) pool" and e
    assume k: "\<not> is_AddJob e" and p: "?P x" and st: "step x e = Some y"
    from st k p show "?P y"
      by (cases rule: step_cases)
         (auto simp: clearQueue_def set_pc_def nth_list_update split: if_splits)
  qed
  moreover from reachable_life [OF assms(1)] assms(3) have "length (m_threads s) = unat n"
    by (simp add: inv_life_def)
  ultimately show ?thesis
    by (simp add: threadCount_def activeCount_def queuedCount_def)
qed

text \<open>Three workers, right after the constructor and after a \<^verbatim>\<open>clearQueue\<close>.\<close>

theorem fresh_pool_counts_witness:
  "run (ThreadPool 3) [ClearQueue] = Some (after 3 [ClearQueue])
   \<and> \<not> is_AddJob (ClearQueue :: (int, int) event)
   \<and> phase (after 3 [ClearQueue]) \<noteq> Destroyed
   \<and> threadCount (after 3 [ClearQueue]) = 3
   \<and> activeCount (after 3 [ClearQueue]) = 0
   \<and> queuedCount (after 3 [ClearQueue]) = 0"
  using fresh_pool_counts [of 3 "[ClearQueue]" "after 3 [ClearQueue]"]
  by (simp add: model_defs)

text \<open>
  Claim C10. In every reachable state of a pool constructed with worker count \<open>n\<close>,
  for as long as the object exists, \<open>threadCount()\<close> is \<open>n\<close> and \<open>activeCount()\<close> is
  the number of workers between their \<^verbatim>\<open>m_nActive++\<close> and their \<^verbatim>\<open>m_nActive--\<close>, each
  holding one task; so it is at most \<open>n\<close>, and the unsigned counter never wraps below
  zero.
\<close>

theorem activeCount_bounded:
  assumes "run (ThreadPool n) evs = Some s" and "phase s \<noteq> Destroyed"
  shows "threadCount s = unat n \<and> activeCount s = workers_at counted s
         \<and> activeCount s \<le> threadCount s"
proof -
  from reachable_life [OF assms(1)] assms(2) have "length (m_threads s) = unat n"
    by (simp add: inv_life_def)
  with activeCount_run [OF assms] workers_at_le [of counted s] show ?thesis
    by (simp add: threadCount_def)
qed

text \<open>Two workers, one of them inside a task.\<close>

theorem activeCount_bounded_witness:
  "run (ThreadPool 2) [AddJob sleeper 0, Worker 1, Worker 1]
     = Some (after 2 [AddJob sleeper 0, Worker 1, Worker 1])
   \<and> phase (after 2 [AddJob sleeper 0, Worker 1, Worker 1]) \<noteq> Destroyed
   \<and> threadCount (after 2 [AddJob sleeper 0, Worker 1, Worker 1]) = 2
   \<and> activeCount (after 2 [AddJob sleeper 0, Worker 1, Worker 1]) = 1
   \<and> workers_at counted (after 2 [AddJob sleeper 0, Worker 1, Worker 1]) = 1"
  using activeCount_bounded
          [of 2 "[AddJob sleeper 0, Worker 1, Worker 1]"
              "after 2 [AddJob sleeper 0, Worker 1, Worker 1]"]
  by (simp add: model_defs workers_at_def)

section \<open>Accounting for the submitted tasks\<close>

text \<open>
  Claim C3, as stated, does not hold: the worker dequeues under the lock and increments
  \<^verbatim>\<open>m_nActive\<close> only after \<^verbatim>\<open>lk.unlock()\<close>. With one worker and one submitted task,
  right after the dequeue the task is neither queued, nor active, nor completed; and
  after the task has returned, before the decrement, it is both completed and active.
\<close>

theorem counts_sum_counterexample:
  "run (ThreadPool 1) [AddJob sleeper 0, Worker 0]
     = Some (after 1 [AddJob sleeper 0, Worker 0])
   \<and> submittedCount (after 1 [AddJob sleeper 0, Worker 0]) = 1
   \<and> activeCount (after 1 [AddJob sleeper 0, Worker 0])
       + queuedCount (after 1 [AddJob sleeper 0, Worker 0])
       + completedCount (after 1 [AddJob sleeper 0, Worker 0]) = 0
   \<and> run (ThreadPool 1) [AddJob sleeper 0, Worker 0, Worker 0, Worker 0]
     = Some (after 1 [AddJob sleeper 0, Worker 0, Worker 0, Worker 0])
   \<and> submittedCount (after 1 [AddJob sleeper 0, Worker 0, Worker 0, Worker 0]) = 1
   \<and> activeCount (after 1 [AddJob sleeper 0, Worker 0, Worker 0, Worker 0])
       + queuedCount (after 1 [AddJob sleeper 0, Worker 0, Worker 0, Worker 0])
       + completedCount (after 1 [AddJob sleeper 0, Worker 0, Worker 0, Worker 0]) = 2"
  by (simp add: model_defs submittedCount_def activeCount_def queuedCount_def
        completedCount_def)

text \<open>
  Claim C3, amended. While the object exists, every submitted task is queued, or held by
  a worker, or completed, or discarded, and a task held by a worker is not in the queue.
  The three counters add up to the number of submitted tasks only up to the workers in
  transit: with the workers that have dequeued and not yet incremented and the discarded
  tasks added on the left, and the workers whose task has returned and that have not yet
  decremented added on the right, the two sides are equal.
\<close>

theorem task_accounting:
  assumes "run (ThreadPool n) evs = Some s" and "phase s \<noteq> Destroyed"
  shows "activeCount s + queuedCount s + completedCount s
           + workers_at is_Popped s + discardedCount s
         = submittedCount s + workers_at is_Finished s
         \<and> (\<forall>w<length (m_threads s). \<forall>c.
              held (pc (m_threads s ! w)) = Some c \<longrightarrow> c \<notin> set (m_tasks s))"
proof
  have "submittedCount s = pendingCount s + completedCount s + discardedCount s"
    using shared_partition [of "shared s"]
    by (simp add: submittedCount_def pendingCount_def completedCount_def discardedCount_def)
  with pending_run [OF assms] activeCount_run [OF assms] counted_split [of s]
  show "activeCount s + queuedCount s + completedCount s
           + workers_at is_Popped s + discardedCount s
         = submittedCount s + workers_at is_Finished s"
    by simp
next
  from reachable_store [OF assms(1)] have "inv_held s" by (simp add: inv_store_def)
  then show "\<forall>w<length (m_threads s). \<forall>c.
              held (pc (m_threads s ! w)) = Some c \<longrightarrow> c \<notin> set (m_tasks s)"
    unfolding inv_held_def by (metis imageI)
qed

text \<open>
  Three workers and four tasks, one worker before its increment, one inside its task, one
  after its task, and one task still queued.
\<close>

theorem task_accounting_witness:
  "run (ThreadPool 3)
       [AddJob sleeper 0, AddJob sleeper 1, AddJob myFunc 2, AddJob myFunc 3,
        Worker 0, Worker 1, Worker 2, Worker 1, Worker 2, Worker 2]
     = Some (after 3
       [AddJob sleeper 0, AddJob sleeper 1, AddJob myFunc 2, AddJob myFunc 3,
        Worker 0, Worker 1, Worker 2, Worker 1, Worker 2, Worker 2])
   \<and> phase (after 3
       [AddJob sleeper 0, AddJob sleeper 1, AddJob myFunc 2, AddJob myFunc 3,
        Worker 0, Worker 1, Worker 2, Worker 1, Worker 2, Worker 2]) = Alive
   \<and> activeCount (after 3
       [AddJob sleeper 0, AddJob sleeper 1, AddJob myFunc 2, AddJob myFunc 3,
        Worker 0, Worker 1, Worker 2, Worker 1, Worker 2, Worker 2]) = 2
   \<and> queuedCount (after 3
       [AddJob sleeper 0, AddJob sleeper 1, AddJob myFunc 2, AddJob myFunc 3,
        Worker 0, Worker 1, Worker 2, Worker 1, Worker 2, Worker 2]) = 1
   \<and> completedCount (after 3
       [AddJob sleeper 0, AddJob sleeper 1, AddJob myFunc 2, AddJob myFunc 3,
        Worker 0, Worker 1, Worker 2, Worker 1, Worker 2, Worker 2]) = 1
   \<and> submittedCount (after 3
       [AddJob sleeper 0, AddJob sleeper 1, AddJob myFunc 2, AddJob myFunc 3,
        Worker 0, Worker 1, Worker 2, Worker 1, Worker 2, Worker 2]) = 4"
  using task_accounting
          [of 3 "[AddJob sleeper 0, AddJob sleeper 1, AddJob myFunc 2, AddJob myFunc 3,
                  Worker 0, Worker 1, Worker 2, Worker 1, Worker 2, Worker 2]"
              "after 3 [AddJob sleeper 0, AddJob sleeper 1, AddJob myFunc 2, AddJob myFunc 3,
                  Worker 0, Worker 1, Worker 2, Worker 1, Worker 2, Worker 2]"]
  by (simp add: model_defs submittedCount_def activeCount_def queuedCount_def
        completedCount_def)

section \<open>A task whose callable throws\<close>

text \<open>
  Claim C1, as stated, does not hold: neither the closure built by \<^verbatim>\<open>addJob\<close> nor the
  worker loop has a handler. With one worker, a throwing task and a second task behind
  it, running the first ends the process: its future still blocks, the worker is not back
  at the top of its loop, and the second task stays queued with no step left to run it.
\<close>

theorem task_failure_counterexample:
  "run (ThreadPool 1) [AddJob thrower 0, AddJob myFunc 1, Worker 0, Worker 0, Worker 0]
     = Some (after 1 [AddJob thrower 0, AddJob myFunc 1, Worker 0, Worker 0, Worker 0])
   \<and> aborted (after 1 [AddJob thrower 0, AddJob myFunc 1, Worker 0, Worker 0, Worker 0])
   \<and> map future_get
         (shared (after 1 [AddJob thrower 0, AddJob myFunc 1, Worker 0, Worker 0, Worker 0]))
     = [Blocks, Blocks]
   \<and> map pc
         (m_threads (after 1 [AddJob thrower 0, AddJob myFunc 1, Worker 0, Worker 0, Worker 0]))
     = [Running (Closure 0 thrower 0)]
   \<and> m_tasks (after 1 [AddJob thrower 0, AddJob myFunc 1, Worker 0, Worker 0, Worker 0])
     = [Closure 1 myFunc 1]
   \<and> step (after 1 [AddJob thrower 0, AddJob myFunc 1, Worker 0, Worker 0, Worker 0])
        (Worker 0) = None"
  by (simp add: model_defs)

text \<open>
  Claim C1, amended. A failure of a task's callable is not captured: when a worker runs
  a task whose callable throws, the exception leaves the worker's thread function and the
  process is terminated. The task's future is left unfulfilled, the worker does not
  return to waiting, and no thread takes a further step, so no other task proceeds.
\<close>

theorem task_failure_terminates:
  assumes "run (ThreadPool n) evs = Some s" and "\<not> aborted s"
    and "w < length (m_threads s)" and "pc (m_threads s ! w) = Running c"
    and "fn c (args c) = Throws"
  shows "step s (Worker w) = Some (s\<lparr> aborted := True \<rparr>)
         \<and> future_get (shared (s\<lparr> aborted := True \<rparr>) ! promise c) = Blocks
         \<and> pc (m_threads (s\<lparr> aborted := True \<rparr>) ! w) = Running c
         \<and> (\<forall>e. step (s\<lparr> aborted := True \<rparr>) e = None)"
proof -
  from reachable_life [OF assms(1)] assms(3) have "phase s \<noteq> Destroyed"
    by (auto simp: inv_life_def)
  with assms(2,3,4,5) have "step s (Worker w) = Some (s\<lparr> aborted := True \<rparr>)"
    by (simp add: step_def worker_step_def call_closure_def)
  moreover from reachable_store [OF assms(1)] assms(3,4)
  have "shared s ! promise c = Pending"
    by (auto simp: inv_store_def inv_pending_def)
  ultimately show ?thesis
    using assms(4) by (simp add: step_def)
qed

text \<open>The throwing task of the counterexample, at the moment the worker runs it.\<close>

theorem task_failure_terminates_witness:
  "run (ThreadPool 1) [AddJob thrower 0, AddJob myFunc 1, Worker 0, Worker 0]
     = Some (after 1 [AddJob thrower 0, AddJob myFunc 1, Worker 0, Worker 0])
   \<and> \<not> aborted (after 1 [AddJob thrower 0, AddJob myFunc 1, Worker 0, Worker 0])
   \<and> pc (m_threads (after 1 [AddJob thrower 0, AddJob myFunc 1, Worker 0, Worker 0]) ! 0)
     = Running (Closure 0 thrower 0)
   \<and> fn (Closure 0 thrower 0) (args (Closure 0 thrower 0)) = Throws
   \<and> step (after 1 [AddJob thrower 0, AddJob myFunc 1, Worker 0, Worker 0]) (Worker 0)
     = Some ((after 1 [AddJob thrower 0, AddJob myFunc 1, Worker 0, Worker 0])
               \<lparr> aborted := True \<rparr>)
   \<and> step ((after 1 [AddJob thrower 0, AddJob myFunc 1, Worker 0, Worker 0])
               \<lparr> aborted := True \<rparr>) (Worker 0) = None"
  using task_failure_terminates
          [of 1 "[AddJob thrower 0, AddJob myFunc 1, Worker 0, Worker 0]"
              "after 1 [AddJob thrower 0, AddJob myFunc 1, Worker 0, Worker 0]" 0
              "Closure 0 thrower 0"]
  by (simp add: model_defs)

section \<open>Results\<close>



section \<open>Clearing the queue\<close>

text \<open>
  Claim C7. \<^verbatim>\<open>clearQueue\<close> replaces the queue by an empty one in one step under the
  lock: right afterwards \<open>queuedCount()\<close> is 0. The workers, the active counter and the
  promises of the tasks that workers hold are untouched, and the step of a worker that is
  running a task still fulfils the task's future. None of the discarded tasks ever
  executes: in every later state its promise is broken, and no closure with that promise
  is queued or held by a worker.
\<close>

theorem clearQueue_discards:
  assumes "run (ThreadPool n) evs = Some s" and "step s ClearQueue = Some s'"
    and "run s' evs' = Some s''"
  shows "queuedCount s' = 0 \<and> m_threads s' = m_threads s \<and> m_nActive s' = m_nActive s
     \<and> (\<forall>w<length (m_threads s). \<forall>d. held (pc (m_threads s ! w)) = Some d \<longrightarrow>
           shared s' ! promise d = shared s ! promise d)
     \<and> (\<forall>w<length (m_threads s). \<forall>d. pc (m_threads s ! w) = Running d \<longrightarrow>
           (\<exists>t. step s' (Worker w) = Some t
              \<and> (fn d (args d) \<noteq> Throws \<longrightarrow> fulfils (fn d (args d)) (shared t ! promise d))))
     \<and> (\<forall>c\<in>set (m_tasks s).
           shared s'' ! promise c = BrokenPromise
           \<and> (\<forall>d\<in>set (m_tasks s''). promise d \<noteq> promise c)
           \<and> (\<forall>w<length (m_threads s''). \<forall>d.
                 held (pc (m_threads s'' ! w)) = Some d \<longrightarrow> promise d \<noteq> promise c))"
proof -
  have st: "inv_store s" by (rule reachable_store [OF assms(1)])
  from assms(2) have s': "s' = clearQueue s" and en: "\<not> aborted s" "phase s \<noteq> Destroyed"
    by (auto simp: step_def split: if_splits)
  have keep: "shared s' ! promise d = shared s ! promise d"
    if "w < length (m_threads s)" and "held (pc (m_threads s ! w)) = Some d" for w d
  proof -
    from st that have "promise d \<notin> promise ` set (m_tasks s)"
      by (auto simp: inv_store_def inv_held_def)
    with s' show ?thesis by (simp add: clearQueue_def fold_destroy_nth)
  qed
  have runs: "\<exists>t. step s' (Worker w) = Some t
              \<and> (fn d (args d) \<noteq> Throws \<longrightarrow> fulfils (fn d (args d)) (shared t ! promise d))"
    if w: "w < length (m_threads s)" and r: "pc (m_threads s ! w) = Running d" for w d
  proof -
    from st w r have "promise d < length (shared s)" "shared s ! promise d = Pending"
      by (auto simp: inv_store_def inv_held_def inv_pending_def)
    with keep [of w d] w r s' have p: "promise d < length (shared s')"
      "shared s' ! promise d = Pending"
      by (simp_all add: clearQueue_def)
    from s' w r en have q: "w < length (m_threads s')" "pc (m_threads s' ! w) = Running d"
      "\<not> aborted s'" "phase s' \<noteq> Destroyed"
      by (simp_all add: clearQueue_def)
    show ?thesis
      using p q
      by (cases "fn d (args d)")
         (simp_all add: step_def worker_step_def call_closure_def set_value_def)
  qed
  have gone: "shared s'' ! promise c = BrokenPromise
           \<and> (\<forall>d\<in>set (m_tasks s''). promise d \<noteq> promise c)
           \<and> (\<forall>w<length (m_threads s''). \<forall>d.
                 held (pc (m_threads s'' ! w)) = Some d \<longrightarrow> promise d \<noteq> promise c)"
    if c: "c \<in> set (m_tasks s)" for c
  proof -
    from s' have "inv_discarded (promise c) s'"
      by (intro drop_queue_discards [OF st c]) (simp_all add: clearQueue_def)
    from inv_discarded_run [OF assms(3) this] show ?thesis
      by (simp add: inv_discarded_def)
  qed
  from s' have "queuedCount s' = 0 \<and> m_threads s' = m_threads s \<and> m_nActive s' = m_nActive s"
    by (simp add: clearQueue_def queuedCount_def)
  with keep runs gone show ?thesis by blast
qed

text \<open>
  Two workers and three tasks: one worker runs the first task, \<^verbatim>\<open>clearQueue\<close> discards
  the other two, and the workers go on, with a fourth task submitted afterwards.
\<close>

theorem clearQueue_discards_witness:
  "run (ThreadPool 2) [AddJob myFunc 1, AddJob myFunc 2, AddJob sleeper 3, Worker 0, Worker 0]
     = Some (after 2 [AddJob myFunc 1, AddJob myFunc 2, AddJob sleeper 3, Worker 0, Worker 0])
   \<and> step (after 2 [AddJob myFunc 1, AddJob myFunc 2, AddJob sleeper 3, Worker 0, Worker 0])
        ClearQueue
     = Some (after 2 [AddJob myFunc 1, AddJob myFunc 2, AddJob sleeper 3, Worker 0, Worker 0,
                      ClearQueue])
   \<and> run (after 2 [AddJob myFunc 1, AddJob myFunc 2, AddJob sleeper 3, Worker 0, Worker 0,
                    ClearQueue])
          [Worker 0, AddJob myFunc 4, Worker 1, Worker 1, Worker 1, Worker 0]
     = Some (after 2 [AddJob myFunc 1, AddJob myFunc 2, AddJob sleeper 3, Worker 0, Worker 0,
                      ClearQueue, Worker 0, AddJob myFunc 4, Worker 1, Worker 1, Worker 1,
                      Worker 0])
   \<and> map promise
        (m_tasks (after 2 [AddJob myFunc 1, AddJob myFunc 2, AddJob sleeper 3, Worker 0,
                           Worker 0])) = [1, 2]
   \<and> queuedCount (after 2 [AddJob myFunc 1, AddJob myFunc 2, AddJob sleeper 3, Worker 0,
                           Worker 0, ClearQueue]) = 0
   \<and> shared (after 2 [AddJob myFunc 1, AddJob myFunc 2, AddJob sleeper 3, Worker 0, Worker 0,
                      ClearQueue, Worker 0, AddJob myFunc 4, Worker 1, Worker 1, Worker 1,
                      Worker 0])
     = [Ready 2, BrokenPromise, BrokenPromise, Ready 5]"
  using clearQueue_discards
          [of 2 "[AddJob myFunc 1, AddJob myFunc 2, AddJob sleeper 3, Worker 0, Worker 0]"
              "after 2 [AddJob myFunc 1, AddJob myFunc 2, AddJob sleeper 3, Worker 0, Worker 0]"
              "after 2 [AddJob myFunc 1, AddJob myFunc 2, AddJob sleeper 3, Worker 0, Worker 0,
                        ClearQueue]"
              "[Worker 0, AddJob myFunc 4, Worker 1, Worker 1, Worker 1, Worker 0]"
              "after 2 [AddJob myFunc 1, AddJob myFunc 2, AddJob sleeper 3, Worker 0, Worker 0,
                        ClearQueue, Worker 0, AddJob myFunc 4, Worker 1, Worker 1, Worker 1,
                        Worker 0]"]
  by (simp add: model_defs queuedCount_def)

section \<open>Futures of discarded tasks\<close>

text \<open>
  Claim C8. A task that leaves the queue unrun, because \<^verbatim>\<open>clearQueue\<close> discarded it or
  because the queue was destroyed with the pool, has its promise destroyed unfulfilled:
  from then on observing its future raises \<^verbatim>\<open>broken_promise\<close>; it neither blocks nor
  returns a value.
\<close>

theorem discarded_future_broken:
  assumes "run (ThreadPool n) evs = Some s" and "c \<in> set (m_tasks s)"
    and "step s e = Some s'" and "e = ClearQueue \<or> e = Destructor"
    and "c \<notin> set (m_tasks s')" and "run s' evs' = Some s''"
  shows "future_get (shared s'' ! promise c) = Raises broken_promise"
proof -
  have st: "inv_store s" by (rule reachable_store [OF assms(1)])
  from assms(3) have "inv_discarded (promise c) s'"
  proof (cases rule: step_cases)
    case clear
    then show ?thesis
      by (intro drop_queue_discards [OF st assms(2)]) (simp_all add: clearQueue_def)
  next
    case (leave i)
    then show ?thesis
      by (intro drop_queue_discards [OF st assms(2)]) simp_all
  qed (use assms(2,4,5) in auto)
  from inv_discarded_run [OF assms(6) this] show ?thesis
    by (simp add: inv_discarded_def)
qed

text \<open>
  A task discarded by \<^verbatim>\<open>clearQueue\<close> on a pool of one worker, and a task dropped when a
  pool without workers is destroyed.
\<close>

theorem discarded_future_broken_witness:
  "run (ThreadPool 1) [AddJob myFunc 1] = Some (after 1 [AddJob myFunc 1])
   \<and> Closure 0 myFunc 1 \<in> set (m_tasks (after 1 [AddJob myFunc 1]))
   \<and> step (after 1 [AddJob myFunc 1]) ClearQueue = Some (after 1 [AddJob myFunc 1, ClearQueue])
   \<and> Closure 0 myFunc 1 \<notin> set (m_tasks (after 1 [AddJob myFunc 1, ClearQueue]))
   \<and> run (after 1 [AddJob myFunc 1, ClearQueue]) [AddJob myFunc 2, Worker 0]
     = Some (after 1 [AddJob myFunc 1, ClearQueue, AddJob myFunc 2, Worker 0])
   \<and> future_get (shared (after 1 [AddJob myFunc 1, ClearQueue, AddJob myFunc 2, Worker 0]) ! 0)
     = Raises broken_promise
   \<and> run (ThreadPool 0) [AddJob myFunc 1, Destructor]
     = Some (after 0 [AddJob myFunc 1, Destructor])
   \<and> step (after 0 [AddJob myFunc 1, Destructor]) Destructor
     = Some (after 0 [AddJob myFunc 1, Destructor, Destructor])
   \<and> phase (after 0 [AddJob myFunc 1, Destructor, Destructor]) = Destroyed
   \<and> future_get (shared (after 0 [AddJob myFunc 1, Destructor, Destructor]) ! 0)
     = Raises broken_promise"
  using discarded_future_broken
          [of 1 "[AddJob myFunc 1]" "after 1 [AddJob myFunc 1]" "Closure 0 myFunc 1"
              ClearQueue "after 1 [AddJob myFunc 1, ClearQueue]" "[AddJob myFunc 2, Worker 0]"
              "after 1 [AddJob myFunc 1, ClearQueue, AddJob myFunc 2, Worker 0]"]
        discarded_future_broken
          [of 0 "[AddJob myFunc 1, Destructor]" "after 0 [AddJob myFunc 1, Destructor]"
              "Closure 0 myFunc 1" Destructor
              "after 0 [AddJob myFunc 1, Destructor, Destructor]" "[]"
              "after 0 [AddJob myFunc 1, Destructor, Destructor]"]
  by (simp add: model_defs)

section \<open>Teardown\<close>

text \<open>
  Claim C5, as stated, does not hold for every pool: the constructor accepts a worker
  count of 0, and such a pool has no thread to join. Its destructor returns at once and
  the queued task is destroyed with the queue, unrun, its promise broken.
\<close>

theorem teardown_counterexample:
  "run (ThreadPool 0) [AddJob myFunc 1, Destructor, Destructor]
     = Some (after 0 [AddJob myFunc 1, Destructor, Destructor])
   \<and> phase (after 0 [AddJob myFunc 1, Destructor]) = Destructing 0
   \<and> m_tasks (after 0 [AddJob myFunc 1, Destructor]) = [Closure 0 myFunc 1]
   \<and> phase (after 0 [AddJob myFunc 1, Destructor, Destructor]) = Destroyed
   \<and> shared (after 0 [AddJob myFunc 1, Destructor, Destructor]) = [BrokenPromise]
   \<and> completedCount (after 0 [AddJob myFunc 1, Destructor, Destructor]) = 0"
  by (simp add: model_defs completedCount_def)

text \<open>
  Claim C5, amended. For a pool with at least one worker, the destructor returns only
  when every worker thread has returned, and by then every task that was queued when the
  teardown began has run to completion, its future fulfilled with the outcome of its
  callable. The same holds for a task that is queued later, at a moment when some worker
  has not yet returned, and for a task that a worker has dequeued. The teardown itself
  discards nothing from the queue; a \<^verbatim>\<open>clearQueue\<close> called in between does.
\<close>

theorem teardown_drains:
  assumes "run (ThreadPool n) evs = Some s"
    and "(c \<in> set (m_tasks s)
           \<and> (phase s = Alive \<and> 0 < unat n
               \<or> (\<exists>w<length (m_threads s). pc (m_threads s ! w) \<noteq> Terminated)))
         \<or> (\<exists>w<length (m_threads s).
               pc (m_threads s ! w) = Popped c \<or> pc (m_threads s ! w) = Running c)"
    and "run s evs' = Some s'" and "\<forall>e\<in>set evs'. \<not> is_ClearQueue e"
    and "phase s' = Destroyed \<or> phase s' = Destructing (length (m_threads s'))"
  shows "(\<forall>w<length (m_threads s'). pc (m_threads s' ! w) = Terminated)
         \<and> completed (shared s' ! promise c)
         \<and> fulfils (fn c (args c)) (shared s' ! promise c)"
proof -
  have life: "inv_life (unat n) s" by (rule reachable_life [OF assms(1)])
  have store: "inv_store s" by (rule reachable_store [OF assms(1)])
  have alive: "\<exists>w<length (m_threads s). pc (m_threads s ! w) \<noteq> Terminated"
    if "phase s = Alive" and "0 < unat n"
  proof -
    from life that have "0 < length (m_threads s)" "\<not> stop_requested (m_threads s ! 0)"
      by (auto simp: inv_life_def)
    with life have "pc (m_threads s ! 0) \<noteq> Terminated"
      by (auto simp: inv_life_def)
    with \<open>0 < length (m_threads s)\<close> show ?thesis by blast
  qed
  have lt: "promise c < length (shared s)"
    using assms(2) store unfolding inv_store_def inv_queue_def inv_held_def
    by (metis held.simps(1,2))
  with assms(2) alive have start: "inv_drain c s"
    unfolding inv_drain_def by blast
  let ?P = "\<lambda>s :: ('a, 'b) pool. inv_life (unat n) s \<and> inv_drain c s"
  have "?P s'"
  proof (rule run_invariant_on [OF assms(3), where P = ?P and K = "\<lambda>e. \<not> is_ClearQueue e"])
    show "?P s" using life start by simp
  next
    show "\<forall>e\<in>set evs'. \<not> is_ClearQueue e" by (rule assms(4))
  next
    fix x y :: "('a, 'b) pool" and e
    assume "\<not> is_ClearQueue e" and "?P x" and "step x e = Some y"
    then show "?P y"
      using inv_life_step [of x e y "unat n"] inv_drain_step [of x e y "unat n" c]
      by simp
  qed
  then have life': "inv_life (unat n) s'" and drain': "inv_drain c s'" by simp_all
  from life' assms(5) have exited: "\<forall>w<length (m_threads s'). pc (m_threads s' ! w) = Terminated"
    by (auto simp: inv_life_def)
  with drain' have full: "fulfils (fn c (args c)) (shared s' ! promise c)"
    by (auto simp: inv_drain_def)
  then have "completed (shared s' ! promise c)"
    by (cases "fn c (args c)"; cases "shared s' ! promise c") auto
  with exited full show ?thesis by simp
qed

text \<open>
  Two workers and three queued tasks when the destructor starts; the destructor has to
  wait for worker 0, which runs the first and the third task before it returns.
\<close>

theorem teardown_drains_witness:
  "run (ThreadPool 2) [AddJob sleeper 0, AddJob myFunc 1, AddJob myFunc 2]
     = Some (after 2 [AddJob sleeper 0, AddJob myFunc 1, AddJob myFunc 2])
   \<and> Closure 2 myFunc 2
       \<in> set (m_tasks (after 2 [AddJob sleeper 0, AddJob myFunc 1, AddJob myFunc 2]))
   \<and> phase (after 2 [AddJob sleeper 0, AddJob myFunc 1, AddJob myFunc 2]) = Alive
   \<and> run (after 2 [AddJob sleeper 0, AddJob myFunc 1, AddJob myFunc 2])
          [Destructor, Destructor, Worker 0, Worker 1, Worker 0, Worker 0, Worker 0,
           Worker 0, Worker 1, Worker 1, Worker 1, Worker 0, Worker 0, Worker 0, Worker 0,
           Destructor, Destructor, Worker 1, Destructor, Destructor]
     = Some (after 2
          [AddJob sleeper 0, AddJob myFunc 1, AddJob myFunc 2,
           Destructor, Destructor, Worker 0, Worker 1, Worker 0, Worker 0, Worker 0,
           Worker 0, Worker 1, Worker 1, Worker 1, Worker 0, Worker 0, Worker 0, Worker 0,
           Destructor, Destructor, Worker 1, Destructor, Destructor])
   \<and> phase (after 2
          [AddJob sleeper 0, AddJob myFunc 1, AddJob myFunc 2,
           Destructor, Destructor, Worker 0, Worker 1, Worker 0, Worker 0, Worker 0,
           Worker 0, Worker 1, Worker 1, Worker 1, Worker 0, Worker 0, Worker 0, Worker 0,
           Destructor, Destructor, Worker 1, Destructor, Destructor]) = Destroyed
   \<and> shared (after 2
          [AddJob sleeper 0, AddJob myFunc 1, AddJob myFunc 2,
           Destructor, Destructor, Worker 0, Worker 1, Worker 0, Worker 0, Worker 0,
           Worker 0, Worker 1, Worker 1, Worker 1, Worker 0, Worker 0, Worker 0, Worker 0,
           Destructor, Destructor, Worker 1, Destructor, Destructor])
     = [ReadyVoid, Ready 2, Ready 3]"
  using teardown_drains
          [of 2 "[AddJob sleeper 0, AddJob myFunc 1, AddJob myFunc 2]"
              "after 2 [AddJob sleeper 0, AddJob myFunc 1, AddJob myFunc 2]"
              "Closure 2 myFunc 2"
              "[Destructor, Destructor, Worker 0, Worker 1, Worker 0, Worker 0, Worker 0,
                Worker 0, Worker 1, Worker 1, Worker 1, Worker 0, Worker 0, Worker 0, Worker 0,
                Destructor, Destructor, Worker 1, Destructor, Destructor]"
              "after 2
                [AddJob sleeper 0, AddJob myFunc 1, AddJob myFunc 2,
                 Destructor, Destructor, Worker 0, Worker 1, Worker 0, Worker 0, Worker 0,
                 Worker 0, Worker 1, Worker 1, Worker 1, Worker 0, Worker 0, Worker 0, Worker 0,
                 Destructor, Destructor, Worker 1, Destructor, Destructor]"]
  by (simp add: model_defs)

end
